theory Spec2Isabelle
  imports Main "HOL-Library.Sublist" "HOL-Library.Multiset"
begin

section \<open>Source location remapping (inline-document)\<close>

text \<open>
  A \<open>SourceLocation\<close> is \<open>{line: number, column: number, file?: string}\<close>, a
  \<open>LocationOffset\<close> is \<open>{line: number, col: number, filename?: string}\<close>. Lines and
  columns are zero based indices, modelled as integers. An optional property is an
  \<open>option\<close>: a property that holds \<open>undefined\<close> reads the same as one that is absent.
  The field \<open>line\<close> of the offset is called \<open>offset_line\<close>, since both records live in
  one name space.
\<close>

record SourceLocation =
  line :: int
  column :: int
  "file" :: "string option"

record LocationOffset =
  offset_line :: int
  col :: int
  filename :: "string option"

text \<open>
  JavaScript's \<open>a || b\<close> on optional strings: \<open>a\<close> when it is truthy, else \<open>b\<close>. The
  falsy values of this type are \<open>undefined\<close> and the empty string.
\<close>

definition js_or :: "string option \<Rightarrow> string option \<Rightarrow> string option" where
  "js_or a b = (case a of None \<Rightarrow> b | Some s \<Rightarrow> (if s = [] then b else Some s))"

text \<open>
  JavaScript's truthiness of an optional string, the test that \<open>||\<close> applies to its left
  operand: \<open>undefined\<close> and the empty string are falsy, every other string is truthy.
\<close>

definition truthy :: "string option \<Rightarrow> bool" where
  "truthy a = (case a of None \<Rightarrow> False | Some s \<Rightarrow> s \<noteq> [])"

text \<open>
  \<open>correctSourceLocation(sourceLocation, locationOffset?)\<close>. Either argument may be
  \<open>undefined\<close> (an object is never falsy otherwise), and then the first one is returned.
\<close>

definition correctSourceLocation ::
  "SourceLocation option \<Rightarrow> LocationOffset option \<Rightarrow> SourceLocation option" where
  "correctSourceLocation sourceLocation locationOffset =
     (case locationOffset of
        None \<Rightarrow> sourceLocation
      | Some off \<Rightarrow>
          (case sourceLocation of
             None \<Rightarrow> sourceLocation
           | Some loc \<Rightarrow>
               (let result = \<lparr>line = line loc + offset_line off,
                              column = column loc + (if line loc = 0 then col off else 0),
                              file = None\<rparr>
                in Some (if filename off \<noteq> None \<or> file loc \<noteq> None
                         then result\<lparr>file := js_or (filename off) (file loc)\<rparr>
                         else result))))"

section \<open>External paths (analysis-result)\<close>

text \<open>
  \<open>MATCHES_EXTERNAL\<close> is a regular expression literal. The fragment of the regular
  expression language it uses: literal text, the anchors \<open>^\<close> and \<open>$\<close> (no \<open>m\<close> flag:
  start and end of the whole input), alternation and sequence.
\<close>

datatype regexp =
  Lit string
  | Bol
  | Eol
  | Alt regexp regexp
  | Seq regexp regexp

text \<open>
  A matcher state is the input that is left, with a flag that says whether the position
  is the start of the input. \<open>rx_match r st\<close> lists the states in which a match of \<open>r\<close>
  that starts in \<open>st\<close> can end, in the order a backtracking matcher tries them.
\<close>

fun rx_match :: "regexp \<Rightarrow> bool \<times> string \<Rightarrow> (bool \<times> string) list" where
  "rx_match (Lit s) (at_start, inp) =
     (if prefix s inp then [(at_start \<and> s = [], drop (length s) inp)] else [])"
| "rx_match Bol (at_start, inp) = (if at_start then [(at_start, inp)] else [])"
| "rx_match Eol (at_start, inp) = (if inp = [] then [(at_start, inp)] else [])"
| "rx_match (Alt r1 r2) st = rx_match r1 st @ rx_match r2 st"
| "rx_match (Seq r1 r2) st = concat (map (rx_match r2) (rx_match r1 st))"

text \<open>\<open>RegExp.prototype.test\<close>: a match may start at any position of the input.\<close>

fun rx_search :: "regexp \<Rightarrow> bool \<Rightarrow> string \<Rightarrow> bool" where
  "rx_search r at_start [] = (rx_match r (at_start, []) \<noteq> [])"
| "rx_search r at_start (c # cs) =
     (rx_match r (at_start, c # cs) \<noteq> [] \<or> rx_search r False cs)"

definition rx_test :: "regexp \<Rightarrow> string \<Rightarrow> bool" where
  "rx_test r inp = rx_search r True inp"

text \<open>\<open>/(^|\/)(bower_components|node_modules|build($|\/))/\<close>\<close>

definition MATCHES_EXTERNAL :: regexp where
  "MATCHES_EXTERNAL =
     Seq (Alt Bol (Lit ''/''))
         (Alt (Lit ''bower_components'')
              (Alt (Lit ''node_modules'')
                   (Seq (Lit ''build'') (Alt Eol (Lit ''/'')))))"

definition isExternal :: "string \<Rightarrow> bool" where
  "isExternal path = rx_test MATCHES_EXTERNAL path"

text \<open>
  The specification's wording of the same classification, to compare \<open>isExternal\<close> with:
  the components of a path are the pieces between its \<open>/\<close> separators; a path is external
  when a component is exactly \<open>build\<close>, or starts with \<open>bower_components\<close> or
  \<open>node_modules\<close>.
\<close>

fun path_components :: "string \<Rightarrow> string list" where
  "path_components [] = [[]]"
| "path_components (c # cs) =
     (if c = CHR ''/'' then [] # path_components cs
      else (case path_components cs of
              [] \<Rightarrow> [[c]]
            | w # ws \<Rightarrow> (c # w) # ws))"

definition external_component :: "string \<Rightarrow> bool" where
  "external_component w \<longleftrightarrow>
     w = ''build'' \<or> prefix ''bower_components'' w \<or> prefix ''node_modules'' w"

definition isExternal_spec :: "string \<Rightarrow> bool" where
  "isExternal_spec path = list_ex external_component (path_components path)"

text \<open>
  What the second group of \<open>MATCHES_EXTERNAL\<close> asks of the input at a position; used to
  relate the matcher to the components.
\<close>

definition starts_external :: "string \<Rightarrow> bool" where
  "starts_external inp \<longleftrightarrow>
     prefix ''bower_components'' inp \<or> prefix ''node_modules'' inp \<or>
     (prefix ''build'' inp \<and> (drop 5 inp = [] \<or> prefix ''/'' (drop 5 inp)))"

section \<open>The project query engine (analysis-result)\<close>

subsection \<open>Sets in insertion order\<close>

text \<open>
  A JavaScript \<open>Set\<close> keeps its members in insertion order, without duplicates; it is a
  list here. Documents, features and warnings are objects, compared by identity: they are
  values of the types \<open>'d\<close>, \<open>'f\<close> and \<open>'w\<close>.
\<close>

definition set_add :: "'a \<Rightarrow> 'a list \<Rightarrow> 'a list" where
  "set_add x s = (if x \<in> set s then s else s @ [x])"

definition new_Set :: "'a list \<Rightarrow> 'a list" where
  "new_Set xs = fold set_add xs []"

definition set_delete :: "'a \<Rightarrow> 'a list \<Rightarrow> 'a list" where
  "set_delete x s = removeAll x s"

definition addAll :: "'a list \<Rightarrow> 'a list \<Rightarrow> 'a list" where
  "addAll set1 set2 = fold set_add set2 set1"

subsection \<open>Documents: the consumed interface\<close>

record DocumentQueryOptions =
  imported :: bool
  externalPackages :: "bool option"
  noLazyImports :: "bool option"

text \<open>
  \<open>QueryOptions\<close> of an AnalysisResult: \<open>{imported?: true, externalPackages?: boolean,
  noLazyImports?: boolean}\<close>. Its fields carry the prefix \<open>q_\<close>.
\<close>

record QueryOptions =
  q_imported :: "unit option"
  q_externalPackages :: "bool option"
  q_noLazyImports :: "bool option"

text \<open>
  Modelled from the spec: the class \<open>Document\<close> (\<open>./document\<close>) and the field \<open>document\<close>
  of an import feature are not part of the sources at hand. The methods of a document
  that the query engine calls are the fields of this record, each taking the document as
  its first argument; a returned set is the list of its members in iteration order.
  \<open>feature_document\<close> is \<open>imprt.document\<close>: the document an import resolves to, if any.
\<close>

record ('d, 'f, 'w) DocumentApi =
  doc_getByKind :: "'d \<Rightarrow> string \<Rightarrow> DocumentQueryOptions \<Rightarrow> 'f list"
  doc_getById :: "'d \<Rightarrow> string \<Rightarrow> string \<Rightarrow> DocumentQueryOptions \<Rightarrow> 'f list"
  doc_getFeatures :: "'d \<Rightarrow> DocumentQueryOptions \<Rightarrow> 'f list"
  doc_getWarnings :: "'d \<Rightarrow> DocumentQueryOptions \<Rightarrow> 'w list"
  feature_document :: "'f \<Rightarrow> 'd option"

text \<open>
  Modelled from the spec: the contract of \<open>getByKind\<close> for the kind \<open>import\<close> (section 4.1).
  Without \<open>imported\<close> the result is the import features the document owns. They are the
  edges of the import graph. With \<open>imported\<close> the result is the import features owned by
  every document that is reachable over these edges, the document itself included.
\<close>

definition own_imports :: "('d, 'f, 'w) DocumentApi \<Rightarrow> 'd \<Rightarrow> 'f set" where
  "own_imports D d =
     set (doc_getByKind D d ''import''
            \<lparr>imported = False, externalPackages = None, noLazyImports = None\<rparr>)"

definition import_edges :: "('d, 'f, 'w) DocumentApi \<Rightarrow> ('d \<times> 'd) set" where
  "import_edges D = {(a, b). \<exists>f \<in> own_imports D a. feature_document D f = Some b}"

definition transitive_contract :: "('d, 'f, 'w) DocumentApi \<Rightarrow> bool" where
  "transitive_contract D \<longleftrightarrow>
     (\<forall>d. set (doc_getByKind D d ''import''
                 \<lparr>imported = True, externalPackages = None, noLazyImports = None\<rparr>)
           = (\<Union>d' \<in> (import_edges D)\<^sup>* `` {d}. own_imports D d'))"

subsection \<open>AnalysisResult\<close>

text \<open>
  The values of the project mapping: \<open>r instanceof Document\<close> tells a document from a
  warning. The mapping is the list of its entries in insertion order.
\<close>

datatype ('d, 'w) entry = Document 'd | Warning 'w

type_synonym ('d, 'w) results = "(string \<times> ('d, 'w) entry) list"

definition values_of :: "('d, 'w) results \<Rightarrow> ('d, 'w) entry list" where
  "values_of results = map snd results"

fun is_Document :: "('d, 'w) entry \<Rightarrow> bool" where
  "is_Document (Document d) = True"
| "is_Document (Warning w) = False"

fun as_Document :: "('d, 'w) entry \<Rightarrow> 'd list" where
  "as_Document (Document d) = [d]"
| "as_Document (Warning w) = []"

fun as_Warning :: "('d, 'w) entry \<Rightarrow> 'w list" where
  "as_Warning (Document d) = []"
| "as_Warning (Warning w) = [w]"

text \<open>\<open>Array.from(results.values()).filter((r) => r instanceof Document)\<close>\<close>

definition documents_of :: "('d, 'w) results \<Rightarrow> 'd list" where
  "documents_of results = concat (map as_Document (filter is_Document (values_of results)))"

text \<open>\<open>Array.from(results.values()).filter((r) => !(r instanceof Document))\<close>\<close>

definition warnings_of :: "('d, 'w) results \<Rightarrow> 'w list" where
  "warnings_of results =
     concat (map as_Warning (filter (\<lambda>r. \<not> is_Document r) (values_of results)))"

text \<open>
  The documents of a project are the documents of the mapping and the documents they
  import, directly or through other documents; the import graph of the project is the
  import edges between them.
\<close>

definition project_documents :: "('d, 'f, 'w) DocumentApi \<Rightarrow> ('d, 'w) results \<Rightarrow> 'd set" where
  "project_documents D results = (import_edges D)\<^sup>* `` set (documents_of results)"

definition project_graph :: "('d, 'f, 'w) DocumentApi \<Rightarrow> ('d, 'w) results \<Rightarrow> ('d \<times> 'd) set" where
  "project_graph D results =
     {(a, b). (a, b) \<in> import_edges D
        \<and> a \<in> project_documents D results \<and> b \<in> project_documents D results}"

text \<open>
  The body of the inner loop of the constructor: an import that resolves to another
  document than \<open>doc\<close> deletes its target. An unresolved import has \<open>undefined\<close> for its
  document, which is no member of the set, so that deleting it changes nothing.
\<close>

definition delete_import ::
  "('d, 'f, 'w) DocumentApi \<Rightarrow> 'd \<Rightarrow> 'f \<Rightarrow> 'd list \<Rightarrow> 'd list" where
  "delete_import D doc imprt potentialRoots =
     (if feature_document D imprt \<noteq> Some doc
      then (case feature_document D imprt of
              None \<Rightarrow> potentialRoots
            | Some target \<Rightarrow> set_delete target potentialRoots)
      else potentialRoots)"

definition delete_imports :: "('d, 'f, 'w) DocumentApi \<Rightarrow> 'd \<Rightarrow> 'd list \<Rightarrow> 'd list" where
  "delete_imports D doc potentialRoots =
     fold (delete_import D doc)
       (doc_getByKind D doc ''import''
          \<lparr>imported = True, externalPackages = None, noLazyImports = None\<rparr>)
       potentialRoots"

text \<open>
  The outer loop iterates over the set that the inner loop deletes from. A set iterator
  walks the entries in insertion order and skips an entry that was deleted before the
  iterator reached it. Nothing is added during the loop, so the iteration is a walk over
  the initial members, \<open>pending\<close>, that skips those no longer in \<open>potentialRoots\<close>.
\<close>

fun root_loop :: "('d, 'f, 'w) DocumentApi \<Rightarrow> 'd list \<Rightarrow> 'd list \<Rightarrow> 'd list" where
  "root_loop D [] potentialRoots = potentialRoots"
| "root_loop D (doc # pending) potentialRoots =
     (if doc \<in> set potentialRoots
      then root_loop D pending (delete_imports D doc potentialRoots)
      else root_loop D pending potentialRoots)"

text \<open>
  The object: its private fields \<open>_results\<close> and \<open>_searchRoots\<close> are \<open>results_field\<close> and
  \<open>searchRoots_field\<close>, and the private method \<open>_getDocumentQueryOptions\<close> is
  \<open>getDocumentQueryOptions\<close>, since a name cannot begin with an underscore.
  \<open>searchRoots\<close> is the part of the constructor that computes \<open>_searchRoots\<close>.
\<close>

record ('d, 'w) AnalysisResult =
  results_field :: "('d, 'w) results"
  searchRoots_field :: "'d list"

definition searchRoots :: "('d, 'f, 'w) DocumentApi \<Rightarrow> ('d, 'w) results \<Rightarrow> 'd list" where
  "searchRoots D results =
     (let documents = documents_of results;
          potentialRoots = new_Set documents
      in root_loop D potentialRoots potentialRoots)"

definition constructor ::
  "('d, 'f, 'w) DocumentApi \<Rightarrow> ('d, 'w) results \<Rightarrow> ('d, 'w) AnalysisResult" where
  "constructor D results =
     \<lparr>results_field = results, searchRoots_field = searchRoots D results\<rparr>"

definition getDocument :: "('d, 'w) AnalysisResult \<Rightarrow> string \<Rightarrow> ('d, 'w) entry option" where
  "getDocument this url = map_of (results_field this) url"

definition getDocumentQueryOptions :: "QueryOptions option \<Rightarrow> DocumentQueryOptions" where
  "getDocumentQueryOptions options =
     (let options' = (case options of
                        None \<Rightarrow> \<lparr>q_imported = None, q_externalPackages = None,
                                  q_noLazyImports = None\<rparr>
                      | Some given \<Rightarrow> given)
      in \<lparr>imported = True,
          externalPackages = q_externalPackages options',
          noLazyImports = q_noLazyImports options'\<rparr>)"

definition getByKind ::
  "('d, 'f, 'w) DocumentApi \<Rightarrow> ('d, 'w) AnalysisResult \<Rightarrow> string \<Rightarrow> QueryOptions option
     \<Rightarrow> 'f list" where
  "getByKind D this kind options =
     (let docQueryOptions = getDocumentQueryOptions options
      in fold (\<lambda>doc result. addAll result (doc_getByKind D doc kind docQueryOptions))
           (searchRoots_field this) [])"

definition getById ::
  "('d, 'f, 'w) DocumentApi \<Rightarrow> ('d, 'w) AnalysisResult \<Rightarrow> string \<Rightarrow> string
     \<Rightarrow> QueryOptions option \<Rightarrow> 'f list" where
  "getById D this kind identifier options =
     (let docQueryOptions = getDocumentQueryOptions options
      in fold (\<lambda>doc result. addAll result (doc_getById D doc kind identifier docQueryOptions))
           (searchRoots_field this) [])"

text \<open>
  The decimal digits of a number, as a template literal prints a count;
  \<open>digit_char\<close> is applied to numbers below ten only.
\<close>

definition digit_char :: "nat \<Rightarrow> char" where
  "digit_char n = ''0123456789'' ! n"

function string_of_nat :: "nat \<Rightarrow> string" where
  "string_of_nat n =
     (if n < 10 then [digit_char n] else string_of_nat (n div 10) @ [digit_char (n mod 10)])"
  by pat_completeness auto
termination
  by (relation "measure id") auto

datatype error = Error string

text \<open>
  \<open>results.values().next().value || undefined\<close> is the first member of the set, or
  \<open>undefined\<close> when the set is empty; a feature is an object and never falsy.
\<close>

definition getOnlyAtId ::
  "('d, 'f, 'w) DocumentApi \<Rightarrow> ('d, 'w) AnalysisResult \<Rightarrow> string \<Rightarrow> string
     \<Rightarrow> QueryOptions option \<Rightarrow> error + 'f option" where
  "getOnlyAtId D this kind identifier options =
     (let results = getById D this kind identifier options
      in if length results > 1
         then Inl (Error (''Expected to find at most one '' @ kind @ '' with id '' @ identifier
                          @ '' '' @ ''but found '' @ string_of_nat (length results) @ ''.''))
         else Inr (case results of [] \<Rightarrow> None | x # rest \<Rightarrow> Some x))"

definition getFeatures ::
  "('d, 'f, 'w) DocumentApi \<Rightarrow> ('d, 'w) AnalysisResult \<Rightarrow> QueryOptions option \<Rightarrow> 'f list" where
  "getFeatures D this options =
     (let docQueryOptions = getDocumentQueryOptions options
      in fold (\<lambda>doc result. addAll result (doc_getFeatures D doc docQueryOptions))
           (searchRoots_field this) [])"

definition getWarnings ::
  "('d, 'f, 'w) DocumentApi \<Rightarrow> ('d, 'w) AnalysisResult \<Rightarrow> QueryOptions option \<Rightarrow> 'w list" where
  "getWarnings D this options =
     (let warnings = warnings_of (results_field this);
          result = new_Set warnings;
          docQueryOptions = getDocumentQueryOptions options
      in fold (\<lambda>doc result. addAll result (new_Set (doc_getWarnings D doc docQueryOptions)))
           (searchRoots_field this) result)"

section \<open>Example projects\<close>

text \<open>
  A project of two documents and one file that failed to scan. Both documents define an
  element \<open>x-foo\<close>, and the first one reports the same warning twice.
\<close>

definition sample_api :: "(nat, string, string) DocumentApi" where
  "sample_api =
     \<lparr>doc_getByKind = (\<lambda>d kind opts. []),
      doc_getById = (\<lambda>d kind identifier opts.
         if kind = ''element'' \<and> identifier = ''x-foo''
         then (if d = 0 then [''x-foo@index.html''] else if d = 1 then [''x-foo@lib.html''] else [])
         else if kind = ''element'' \<and> identifier = ''x-bar''
         then (if d = 1 then [''x-bar@lib.html''] else [])
         else []),
      doc_getFeatures = (\<lambda>d opts.
         if d = 0 then [''x-foo@index.html'']
         else if d = 1 then [''x-foo@lib.html'', ''x-bar@lib.html''] else []),
      doc_getWarnings = (\<lambda>d opts. if d = 0 then [''unknown tag'', ''unknown tag''] else []),
      feature_document = (\<lambda>f. None)\<rparr>"

definition sample_results :: "(nat, string) results" where
  "sample_results =
     [(''index.html'', Document 0), (''broken.html'', Warning ''parse error''),
      (''lib.html'', Document 1)]"

text \<open>
  Projects whose features are the import edges of a graph over numbered documents: a
  feature is the pair of the importing and the imported document. \<open>own\<close> lists what a
  document imports, \<open>closure\<close> lists the imports of the transitive query.
\<close>

definition graph_api ::
  "(nat \<Rightarrow> nat list) \<Rightarrow> (nat \<Rightarrow> (nat \<times> nat) list) \<Rightarrow> (nat, nat \<times> nat, string) DocumentApi" where
  "graph_api own closure =
     \<lparr>doc_getByKind = (\<lambda>d kind opts.
         if kind = ''import'' then (if imported opts then closure d else map (Pair d) (own d))
         else []),
      doc_getById = (\<lambda>d kind identifier opts. []),
      doc_getFeatures = (\<lambda>d opts. if imported opts then closure d else map (Pair d) (own d)),
      doc_getWarnings = (\<lambda>d opts. []),
      feature_document = (\<lambda>f. Some (snd f))\<rparr>"

text \<open>Two documents that import each other.\<close>

definition cycle_api :: "(nat, nat \<times> nat, string) DocumentApi" where
  "cycle_api =
     graph_api (\<lambda>d. if d = 0 then [1] else if d = 1 then [0] else [])
       (\<lambda>d. if d = 0 then [(0, 1), (1, 0)] else if d = 1 then [(1, 0), (0, 1)] else [])"

text \<open>Document 0 imports document 1; documents 1 and 2 import each other.\<close>

definition rooted_cycle_api :: "(nat, nat \<times> nat, string) DocumentApi" where
  "rooted_cycle_api =
     graph_api (\<lambda>d. if d = 0 then [1] else if d = 1 then [2] else if d = 2 then [1] else [])
       (\<lambda>d. if d = 0 then [(0, 1), (1, 2), (2, 1)]
            else if d = 1 then [(1, 2), (2, 1)]
            else if d = 2 then [(2, 1), (1, 2)] else [])"

text \<open>An acyclic project: document 0 imports 1 and 2, document 1 imports 2.\<close>

definition dag_api :: "(nat, nat \<times> nat, string) DocumentApi" where
  "dag_api =
     graph_api (\<lambda>d. if d = 0 then [1, 2] else if d = 1 then [2] else [])
       (\<lambda>d. if d = 0 then [(0, 1), (0, 2), (1, 2)] else if d = 1 then [(1, 2)] else [])"

text \<open>Mappings over these documents, each in two insertion orders.\<close>

definition three_documents :: "(nat, string) results" where
  "three_documents =
     [(''a.html'', Document 1), (''b.html'', Document 2), (''index.html'', Document 0)]"

definition three_documents_reordered :: "(nat, string) results" where
  "three_documents_reordered =
     [(''b.html'', Document 2), (''index.html'', Document 0), (''a.html'', Document 1)]"

definition two_documents :: "(nat, string) results" where
  "two_documents = [(''a.html'', Document 0), (''b.html'', Document 1)]"

definition two_documents_reordered :: "(nat, string) results" where
  "two_documents_reordered = [(''b.html'', Document 1), (''a.html'', Document 0)]"

section \<open>Theorems: source location remapping\<close>

text \<open>
  C7. With an inner location and a present offset, the result is a location whose line is
  the inner line plus the offset's line; its column is the inner column plus the offset's
  column when the inner line is 0, and the inner column unchanged when the inner line is
  greater than 0.
\<close>

theorem correctSourceLocation_rule:
  "\<exists>r. correctSourceLocation (Some loc) (Some off) = Some r
     \<and> line r = line loc + offset_line off
     \<and> (line loc = 0 \<longrightarrow> column r = column loc + col off)
     \<and> (line loc > 0 \<longrightarrow> column r = column loc)"
  by (simp add: correctSourceLocation_def Let_def)

theorem correctSourceLocation_rule_witness:
  "correctSourceLocation (Some \<lparr>line = 0, column = 5, file = None\<rparr>)
       (Some \<lparr>offset_line = 10, col = 3, filename = None\<rparr>)
     = Some \<lparr>line = 10, column = 8, file = None\<rparr>
   \<and> correctSourceLocation (Some \<lparr>line = 2, column = 5, file = None\<rparr>)
       (Some \<lparr>offset_line = 10, col = 3, filename = None\<rparr>)
     = Some \<lparr>line = 12, column = 5, file = None\<rparr>"
  using correctSourceLocation_rule
    [of "\<lparr>line = 0, column = 5, file = None\<rparr>" "\<lparr>offset_line = 10, col = 3, filename = None\<rparr>"]
  by (simp add: correctSourceLocation_def Let_def)

text \<open>
  C8. Without an offset the location is returned as it is: the same line, the same
  column and the same filename, present or absent. This also covers an absent location.
\<close>

theorem correctSourceLocation_pass_through:
  "correctSourceLocation loc None = loc"
  by (simp add: correctSourceLocation_def)

theorem correctSourceLocation_pass_through_witness:
  "correctSourceLocation (Some \<lparr>line = 3, column = 7, file = None\<rparr>) None
     = Some \<lparr>line = 3, column = 7, file = None\<rparr>
   \<and> correctSourceLocation None None = None"
  using correctSourceLocation_pass_through [of "Some \<lparr>line = 3, column = 7, file = None\<rparr>"]
    correctSourceLocation_pass_through [of None]
  by simp

text \<open>
  C9. With an inner location and a present offset, the result carries a filename if and
  only if the offset specifies a filename or the inner location carries one, and when
  both do, the result's filename is the offset's. A filename is specified, or carried,
  when the property holds a name, that is a string that is not empty: the choice
  \<open>locationOffset.filename || sourceLocation.file\<close> passes over an empty string as it
  passes over \<open>undefined\<close>.
\<close>

theorem correctSourceLocation_filename:
  "\<exists>r. correctSourceLocation (Some loc) (Some off) = Some r
     \<and> (truthy (file r) = (truthy (filename off) \<or> truthy (file loc)))
     \<and> (truthy (filename off) \<and> truthy (file loc) \<longrightarrow> file r = filename off)"
  by (cases "filename off"; cases "file loc")
    (auto simp: correctSourceLocation_def js_or_def truthy_def Let_def)

theorem correctSourceLocation_filename_witness:
  "correctSourceLocation (Some \<lparr>line = 1, column = 2, file = Some ''a.js''\<rparr>)
       (Some \<lparr>offset_line = 3, col = 4, filename = Some ''index.html''\<rparr>)
     = Some \<lparr>line = 4, column = 2, file = Some ''index.html''\<rparr>
   \<and> truthy (Some ''index.html'') \<and> truthy (Some ''a.js'')
   \<and> correctSourceLocation (Some \<lparr>line = 0, column = 0, file = Some ''a.html''\<rparr>)
       (Some \<lparr>offset_line = 0, col = 0, filename = Some ''''\<rparr>)
     = Some \<lparr>line = 0, column = 0, file = Some ''a.html''\<rparr>
   \<and> \<not> truthy (Some '''')
   \<and> correctSourceLocation (Some \<lparr>line = 0, column = 0, file = None\<rparr>)
       (Some \<lparr>offset_line = 0, col = 0, filename = None\<rparr>)
     = Some \<lparr>line = 0, column = 0, file = None\<rparr>"
  using correctSourceLocation_filename
    [of "\<lparr>line = 1, column = 2, file = Some ''a.js''\<rparr>"
        "\<lparr>offset_line = 3, col = 4, filename = Some ''index.html''\<rparr>"]
  by (simp add: correctSourceLocation_def js_or_def truthy_def)

section \<open>Theorems: external paths\<close>

lemma rx_match_names:
  "(rx_match (Alt (Lit B) (Alt (Lit N) (Seq (Lit U) (Alt Eol (Lit S))))) (b, inp) \<noteq> []) \<longleftrightarrow>
     prefix B inp \<or> prefix N inp \<or>
     (prefix U inp \<and> (drop (length U) inp = [] \<or> prefix S (drop (length U) inp)))"
  by auto

lemma rx_match_boundary:
  "(rx_match (Seq (Alt Bol (Lit [x])) T) (b, inp) \<noteq> []) \<longleftrightarrow>
     (b \<and> rx_match T (b, inp) \<noteq> []) \<or> (\<exists>rest. inp = x # rest \<and> rx_match T (False, rest) \<noteq> [])"
  by (cases inp) auto

lemma length_build: "length ''build'' = 5"
  by simp

lemma rx_match_MATCHES_EXTERNAL:
  "(rx_match MATCHES_EXTERNAL (b, inp) \<noteq> []) \<longleftrightarrow>
     (b \<and> starts_external inp) \<or> (\<exists>rest. inp = CHR ''/'' # rest \<and> starts_external rest)"
  unfolding MATCHES_EXTERNAL_def starts_external_def rx_match_boundary rx_match_names length_build
  by (rule refl)


lemma path_components_nonempty: "path_components inp \<noteq> []"
  by (induction inp) (auto split: list.splits)

lemma hd_path_components:
  "hd (path_components inp) = takeWhile (\<lambda>c. c \<noteq> CHR ''/'') inp"
  by (induction inp) (auto split: list.splits simp: path_components_nonempty)

lemma prefix_takeWhile:
  "x \<notin> set s \<Longrightarrow> prefix s (takeWhile (\<lambda>c. c \<noteq> x) inp) = prefix s inp"
proof (induction s arbitrary: inp)
  case Nil
  then show ?case by simp
next
  case (Cons a s)
  then show ?case by (cases inp) auto
qed

lemma takeWhile_eq_iff:
  "x \<notin> set s \<Longrightarrow>
     (takeWhile (\<lambda>c. c \<noteq> x) inp = s) =
     (prefix s inp \<and> (drop (length s) inp = [] \<or> prefix [x] (drop (length s) inp)))"
proof (induction s arbitrary: inp)
  case Nil
  then show ?case by (cases inp) auto
next
  case (Cons a s)
  then show ?case by (cases inp) auto
qed

lemma starts_external_component:
  "starts_external inp = external_component (hd (path_components inp))"
proof -
  let ?w = "takeWhile (\<lambda>c. c \<noteq> CHR ''/'') inp"
  have b: "prefix ''bower_components'' ?w = prefix ''bower_components'' inp"
    by (rule prefix_takeWhile) simp
  have n: "prefix ''node_modules'' ?w = prefix ''node_modules'' inp"
    by (rule prefix_takeWhile) simp
  have e: "(?w = ''build'') =
      (prefix ''build'' inp \<and> (drop 5 inp = [] \<or> prefix ''/'' (drop 5 inp)))"
    using takeWhile_eq_iff [of "CHR ''/''" "''build''" inp] by (simp only: length_build) simp
  show ?thesis
    unfolding starts_external_def external_component_def hd_path_components b n e
    by blast
qed


lemma rx_search_components:
  "rx_search MATCHES_EXTERNAL b inp \<longleftrightarrow>
     (b \<and> external_component (hd (path_components inp)))
     \<or> list_ex external_component (tl (path_components inp))"
proof (induction inp arbitrary: b)
  case Nil
  show ?case
    by (simp add: rx_match_MATCHES_EXTERNAL starts_external_component del: rx_match.simps)
next
  case (Cons c cs)
  obtain w ws where split: "path_components cs = w # ws"
    using path_components_nonempty [of cs] by (cases "path_components cs") auto
  have here: "(rx_match MATCHES_EXTERNAL (b, c # cs) \<noteq> []) \<longleftrightarrow>
      (b \<and> external_component (hd (path_components (c # cs))))
      \<or> (c = CHR ''/'' \<and> external_component w)"
    using split by (simp add: rx_match_MATCHES_EXTERNAL starts_external_component del: rx_match.simps)
  have rest: "rx_search MATCHES_EXTERNAL False cs \<longleftrightarrow> list_ex external_component ws"
    using Cons.IH [of False] split by simp
  have empty: "\<not> external_component []"
    by (simp add: external_component_def)
  show ?case
  proof (cases "c = CHR ''/''")
    case True
    then show ?thesis using here rest split empty by (simp del: rx_match.simps)
  next
    case False
    then show ?thesis using here rest split by (simp del: rx_match.simps)
  qed
qed

text \<open>
  C10. \<open>isExternal\<close> is true exactly when a component of the path is named \<open>build\<close>, or
  starts with \<open>bower_components\<close> or \<open>node_modules\<close>; components begin at the start of
  the path or after a \<open>/\<close> and end at the next \<open>/\<close> or at the end of the path. The four
  paths of the specification are classified as it says.
\<close>

theorem isExternal_classification:
  "isExternal path = isExternal_spec path
   \<and> isExternal ''node_modules/foo/bar.js''
   \<and> isExternal ''bower_components-extra/x.js''
   \<and> isExternal ''build/out.js''
   \<and> \<not> isExternal ''src/build-tools/x.js''"
proof -
  obtain w ws where split: "path_components path = w # ws"
    using path_components_nonempty [of path] by (cases "path_components path") auto
  have "isExternal path = isExternal_spec path"
    by (simp add: isExternal_def rx_test_def isExternal_spec_def rx_search_components split)
  moreover have "isExternal ''node_modules/foo/bar.js''"
    by (simp add: isExternal_def rx_test_def MATCHES_EXTERNAL_def)
  moreover have "isExternal ''bower_components-extra/x.js''"
    by (simp add: isExternal_def rx_test_def MATCHES_EXTERNAL_def)
  moreover have "isExternal ''build/out.js''"
    by (simp add: isExternal_def rx_test_def MATCHES_EXTERNAL_def)
  moreover have "\<not> isExternal ''src/build-tools/x.js''"
    by (simp add: isExternal_def rx_test_def MATCHES_EXTERNAL_def)
  ultimately show ?thesis by blast
qed

theorem isExternal_classification_witness:
  "isExternal ''lib/node_modules.bak/build'' \<and> isExternal_spec ''lib/node_modules.bak/build''
   \<and> \<not> isExternal ''src/rebuild/builder.js'' \<and> \<not> isExternal_spec ''src/rebuild/builder.js''"
  using isExternal_classification [of "''lib/node_modules.bak/build''"]
    isExternal_classification [of "''src/rebuild/builder.js''"]
  by (simp add: isExternal_spec_def external_component_def)

section \<open>Theorems: the project query engine\<close>

lemma set_set_add: "set (set_add x s) = insert x (set s)"
  by (auto simp: set_add_def)

lemma distinct_set_add: "distinct s \<Longrightarrow> distinct (set_add x s)"
  by (simp add: set_add_def)

lemma set_addAll: "set (addAll set1 set2) = set set1 \<union> set set2"
  unfolding addAll_def by (induction set2 arbitrary: set1) (auto simp: set_set_add)

lemma distinct_addAll: "distinct set1 \<Longrightarrow> distinct (addAll set1 set2)"
  unfolding addAll_def by (induction set2 arbitrary: set1) (auto simp: distinct_set_add)

lemma set_new_Set: "set (new_Set xs) = set xs"
  using set_addAll [of "[]" xs] by (simp add: new_Set_def addAll_def)

lemma distinct_new_Set: "distinct (new_Set xs)"
  using distinct_addAll [of "[]" xs] by (simp add: new_Set_def addAll_def)

lemma set_fold_addAll:
  "set (fold (\<lambda>doc result. addAll result (g doc)) roots init)
     = set init \<union> (\<Union>doc \<in> set roots. set (g doc))"
  by (induction roots arbitrary: init) (auto simp: set_addAll)

lemma distinct_fold_addAll:
  "distinct init \<Longrightarrow> distinct (fold (\<lambda>doc result. addAll result (g doc)) roots init)"
  by (induction roots arbitrary: init) (auto simp: distinct_addAll)

lemma getById_set:
  "set (getById D this kind identifier options)
     = (\<Union>doc \<in> set (searchRoots_field this).
          set (doc_getById D doc kind identifier (getDocumentQueryOptions options)))"
  by (simp add: getById_def Let_def set_fold_addAll)

lemma getById_distinct: "distinct (getById D this kind identifier options)"
  by (simp add: getById_def Let_def distinct_fold_addAll)

text \<open>
  C5. \<open>getOnlyAtId\<close> calls \<open>getById\<close>, whose result is a set. With more than one member
  it raises an error whose message names the kind, the identifier and the number of
  members; with no member it returns \<open>undefined\<close>; with one member it returns that member.
\<close>

theorem getOnlyAtId_uniqueness:
  "distinct (getById D this kind identifier options)
   \<and> (1 < length (getById D this kind identifier options) \<longrightarrow>
        getOnlyAtId D this kind identifier options =
          Inl (Error (''Expected to find at most one '' @ kind @ '' with id '' @ identifier
                      @ '' but found ''
                      @ string_of_nat (length (getById D this kind identifier options)) @ ''.'')))
   \<and> (getById D this kind identifier options = [] \<longrightarrow>
        getOnlyAtId D this kind identifier options = Inr None)
   \<and> (\<forall>f. getById D this kind identifier options = [f] \<longrightarrow>
        getOnlyAtId D this kind identifier options = Inr (Some f))"
  by (simp add: getOnlyAtId_def Let_def getById_distinct)

lemma sample_roots: "searchRoots sample_api sample_results = [0, 1]"
  by (simp add: searchRoots_def sample_results_def documents_of_def values_of_def new_Set_def
      set_add_def delete_imports_def sample_api_def)

theorem getOnlyAtId_uniqueness_witness:
  "getOnlyAtId sample_api (constructor sample_api sample_results) ''element'' ''x-foo'' None
     = Inl (Error ''Expected to find at most one element with id x-foo but found 2.'')
   \<and> getOnlyAtId sample_api (constructor sample_api sample_results) ''element'' ''x-baz'' None
     = Inr None
   \<and> getOnlyAtId sample_api (constructor sample_api sample_results) ''element'' ''x-bar'' None
     = Inr (Some ''x-bar@lib.html'')"
proof -
  have foo: "getById sample_api (constructor sample_api sample_results) ''element'' ''x-foo'' None
      = [''x-foo@index.html'', ''x-foo@lib.html'']"
    by (simp add: getById_def constructor_def sample_roots)
      (simp add: sample_api_def addAll_def set_add_def)
  have baz: "getById sample_api (constructor sample_api sample_results) ''element'' ''x-baz'' None
      = []"
    by (simp add: getById_def constructor_def sample_roots)
      (simp add: sample_api_def addAll_def set_add_def)
  have bar: "getById sample_api (constructor sample_api sample_results) ''element'' ''x-bar'' None
      = [''x-bar@lib.html'']"
    by (simp add: getById_def constructor_def sample_roots)
      (simp add: sample_api_def addAll_def set_add_def)
  show ?thesis
    using getOnlyAtId_uniqueness
      [of sample_api "constructor sample_api sample_results" "''element''" "''x-foo''" None]
      getOnlyAtId_uniqueness
      [of sample_api "constructor sample_api sample_results" "''element''" "''x-baz''" None]
      getOnlyAtId_uniqueness
      [of sample_api "constructor sample_api sample_results" "''element''" "''x-bar''" None]
    by (simp add: foo baz bar digit_char_def)
qed


lemma documents_of_Cons:
  "documents_of ((url, r) # results) = as_Document r @ documents_of results"
  by (cases r) (simp_all add: documents_of_def values_of_def)

lemma warnings_of_Cons:
  "warnings_of ((url, r) # results) = as_Warning r @ warnings_of results"
  by (cases r) (simp_all add: warnings_of_def values_of_def)

lemma set_documents_of: "set (documents_of results) = {d. \<exists>url. (url, Document d) \<in> set results}"
proof (induction results)
  case Nil
  show ?case by (simp add: documents_of_def values_of_def)
next
  case (Cons p results)
  obtain url r where p: "p = (url, r)" by (cases p)
  show ?case
    using Cons.IH by (cases r) (auto simp: p documents_of_Cons)
qed

lemma set_warnings_of: "set (warnings_of results) = {w. \<exists>url. (url, Warning w) \<in> set results}"
proof (induction results)
  case Nil
  show ?case by (simp add: warnings_of_def values_of_def)
next
  case (Cons p results)
  obtain url r where p: "p = (url, r)" by (cases p)
  show ?case
    using Cons.IH by (cases r) (auto simp: p warnings_of_Cons)
qed

lemma documents_of_filter:
  "documents_of (filter (\<lambda>(url, r). is_Document r) results) = documents_of results"
proof (induction results)
  case Nil
  show ?case by simp
next
  case (Cons p results)
  obtain url r where p: "p = (url, r)" by (cases p)
  show ?case
    using Cons.IH by (cases r) (simp_all add: p documents_of_Cons)
qed

lemma set_delete_import: "set (delete_import D doc imprt roots) \<subseteq> set roots"
  by (auto simp: delete_import_def set_delete_def split: option.splits)

lemma set_delete_imports_subset: "set (delete_imports D doc roots) \<subseteq> set roots"
proof -
  have "set (fold (delete_import D doc) fs roots) \<subseteq> set roots" for fs
  proof (induction fs arbitrary: roots)
    case Nil
    show ?case by simp
  next
    case (Cons f fs)
    show ?case using Cons.IH [of "delete_import D doc f roots"] set_delete_import [of D doc f roots]
      by auto
  qed
  then show ?thesis by (simp add: delete_imports_def)
qed

lemma set_root_loop_subset: "set (root_loop D pending roots) \<subseteq> set roots"
proof (induction pending arbitrary: roots)
  case Nil
  show ?case by simp
next
  case (Cons doc pending)
  show ?case
    using Cons.IH [of roots] Cons.IH [of "delete_imports D doc roots"]
      set_delete_imports_subset [of D doc roots]
    by auto
qed

lemma searchRoots_subset: "set (searchRoots D results) \<subseteq> set (documents_of results)"
  using set_root_loop_subset [of D "new_Set (documents_of results)" "new_Set (documents_of results)"]
  by (simp add: searchRoots_def Let_def set_new_Set)

lemma searchRoots_filter:
  "searchRoots D (filter (\<lambda>(url, r). is_Document r) results) = searchRoots D results"
  by (simp add: searchRoots_def documents_of_filter)

text \<open>
  C6. \<open>getWarnings\<close> returns, without duplicates, exactly the warnings that occupy a slot
  of the mapping together with the warnings that the transitive query of each search root
  returns. A warning in a slot contributes to nothing else: \<open>getByKind\<close> and
  \<open>getFeatures\<close> collect what the search roots return, the search roots are documents of
  the mapping, and both results stay the same when the warning slots are removed from the
  mapping.
\<close>

theorem getWarnings_aggregation:
  "set (getWarnings D (constructor D results) options)
     = {w. \<exists>url. (url, Warning w) \<in> set results}
       \<union> (\<Union>doc \<in> set (searchRoots D results).
             set (doc_getWarnings D doc (getDocumentQueryOptions options)))
   \<and> distinct (getWarnings D (constructor D results) options)
   \<and> imported (getDocumentQueryOptions options)
   \<and> set (searchRoots D results) \<subseteq> {d. \<exists>url. (url, Document d) \<in> set results}
   \<and> set (getByKind D (constructor D results) kind options)
     = (\<Union>doc \<in> set (searchRoots D results).
          set (doc_getByKind D doc kind (getDocumentQueryOptions options)))
   \<and> set (getFeatures D (constructor D results) options)
     = (\<Union>doc \<in> set (searchRoots D results).
          set (doc_getFeatures D doc (getDocumentQueryOptions options)))
   \<and> getByKind D (constructor D results) kind options
     = getByKind D (constructor D (filter (\<lambda>(url, r). is_Document r) results)) kind options
   \<and> getFeatures D (constructor D results) options
     = getFeatures D (constructor D (filter (\<lambda>(url, r). is_Document r) results)) options"
proof -
  let ?ar = "constructor D results"
  let ?q = "getDocumentQueryOptions options"
  have warnings: "set (getWarnings D ?ar options)
     = {w. \<exists>url. (url, Warning w) \<in> set results}
       \<union> (\<Union>doc \<in> set (searchRoots D results). set (doc_getWarnings D doc ?q))"
    using set_fold_addAll [of "\<lambda>doc. new_Set (doc_getWarnings D doc ?q)"
        "searchRoots D results" "new_Set (warnings_of results)"]
    by (simp add: getWarnings_def constructor_def Let_def set_new_Set set_warnings_of)
  have dist: "distinct (getWarnings D ?ar options)"
    by (simp add: getWarnings_def Let_def distinct_fold_addAll distinct_new_Set)
  have imp: "imported ?q"
    by (simp add: getDocumentQueryOptions_def Let_def)
  have roots: "set (searchRoots D results) \<subseteq> {d. \<exists>url. (url, Document d) \<in> set results}"
    using searchRoots_subset [of D results] by (simp add: set_documents_of)
  have kind: "set (getByKind D ?ar kind options)
     = (\<Union>doc \<in> set (searchRoots D results). set (doc_getByKind D doc kind ?q))"
    by (simp add: getByKind_def constructor_def Let_def set_fold_addAll)
  have feat: "set (getFeatures D ?ar options)
     = (\<Union>doc \<in> set (searchRoots D results). set (doc_getFeatures D doc ?q))"
    by (simp add: getFeatures_def constructor_def Let_def set_fold_addAll)
  have kind': "getByKind D ?ar kind options
     = getByKind D (constructor D (filter (\<lambda>(url, r). is_Document r) results)) kind options"
    by (simp add: getByKind_def constructor_def searchRoots_filter)
  have feat': "getFeatures D ?ar options
     = getFeatures D (constructor D (filter (\<lambda>(url, r). is_Document r) results)) options"
    by (simp add: getFeatures_def constructor_def searchRoots_filter)
  from warnings dist imp roots kind feat kind' feat' show ?thesis
    by (intro conjI)
qed

theorem getWarnings_aggregation_witness:
  "set (getWarnings sample_api (constructor sample_api sample_results) None)
     = {''parse error'', ''unknown tag''}
   \<and> getWarnings sample_api (constructor sample_api sample_results) None
     = [''parse error'', ''unknown tag'']
   \<and> getFeatures sample_api (constructor sample_api sample_results) None
     = [''x-foo@index.html'', ''x-foo@lib.html'', ''x-bar@lib.html'']"
proof -
  have w: "getWarnings sample_api (constructor sample_api sample_results) None
     = [''parse error'', ''unknown tag'']"
    by (simp add: getWarnings_def constructor_def sample_roots)
      (simp add: sample_api_def sample_results_def warnings_of_def values_of_def
        addAll_def new_Set_def set_add_def)
  have f: "getFeatures sample_api (constructor sample_api sample_results) None
     = [''x-foo@index.html'', ''x-foo@lib.html'', ''x-bar@lib.html'']"
    by (simp add: getFeatures_def constructor_def sample_roots)
      (simp add: sample_api_def addAll_def set_add_def)
  show ?thesis
    using getWarnings_aggregation [of sample_api sample_results None "''element''"]
    by (simp add: w f)
qed

section \<open>Theorems: the search roots\<close>

lemma import_edges_iff:
  "(a, t) \<in> import_edges D \<longleftrightarrow> (\<exists>f \<in> own_imports D a. feature_document D f = Some t)"
  by (simp add: import_edges_def)

lemma contract_targets:
  assumes "transitive_contract D"
  shows "{t. \<exists>f \<in> set (doc_getByKind D d ''import''
                \<lparr>imported = True, externalPackages = None, noLazyImports = None\<rparr>).
              feature_document D f = Some t}
         = (import_edges D)\<^sup>+ `` {d}"
proof -
  let ?E = "import_edges D"
  let ?T = "\<Union>d' \<in> ?E\<^sup>* `` {d}. own_imports D d'"
  have "{t. \<exists>f \<in> ?T. feature_document D f = Some t} = ?E\<^sup>+ `` {d}"
  proof (intro set_eqI iffI)
    fix t
    assume "t \<in> {t. \<exists>f \<in> ?T. feature_document D f = Some t}"
    then obtain a f where a: "(d, a) \<in> ?E\<^sup>*"
      and f: "f \<in> own_imports D a" "feature_document D f = Some t"
      by auto
    from f have "(a, t) \<in> ?E" using import_edges_iff by fast
    with a have "(d, t) \<in> ?E\<^sup>+" by (rule rtrancl_into_trancl1)
    then show "t \<in> ?E\<^sup>+ `` {d}" by simp
  next
    fix t
    assume "t \<in> ?E\<^sup>+ `` {d}"
    then have "(d, t) \<in> ?E\<^sup>+" by simp
    then obtain a where a: "(d, a) \<in> ?E\<^sup>*" and "(a, t) \<in> ?E"
      by (auto dest: tranclD2)
    then obtain f where "f \<in> own_imports D a" "feature_document D f = Some t"
      using import_edges_iff by fast
    with a show "t \<in> {t. \<exists>f \<in> ?T. feature_document D f = Some t}" by auto
  qed
  then show ?thesis
    using assms by (simp add: transitive_contract_def)
qed

lemma set_fold_delete_import:
  "set (fold (delete_import D doc) fs roots)
     = set roots - {t. t \<noteq> doc \<and> (\<exists>f \<in> set fs. feature_document D f = Some t)}"
proof (induction fs arbitrary: roots)
  case Nil
  show ?case by simp
next
  case (Cons f fs)
  have one: "set (delete_import D doc f roots)
      = set roots - {t. t \<noteq> doc \<and> feature_document D f = Some t}"
    by (auto simp: delete_import_def set_delete_def split: option.splits)
  show ?case
    by (simp add: Cons.IH one) blast
qed

lemma set_delete_imports:
  assumes "transitive_contract D"
  shows "set (delete_imports D doc roots)
     = set roots - ((import_edges D)\<^sup>+ `` {doc} - {doc})"
proof -
  have "set (delete_imports D doc roots)
      = set roots - {t. t \<noteq> doc \<and> t \<in> (import_edges D)\<^sup>+ `` {doc}}"
    unfolding delete_imports_def set_fold_delete_import
    using contract_targets [OF assms, of doc] by blast
  then show ?thesis by blast
qed

lemma delete_imports_keeps_self:
  "doc \<in> set roots \<Longrightarrow> doc \<in> set (delete_imports D doc roots)"
  by (simp add: delete_imports_def set_fold_delete_import)

lemma root_loop_sound:
  assumes "transitive_contract D"
  shows "r \<in> set roots \<Longrightarrow> (r, d) \<in> (import_edges D)\<^sup>* \<Longrightarrow>
     \<exists>r' \<in> set (root_loop D pending roots). (r', d) \<in> (import_edges D)\<^sup>*"
proof (induction pending arbitrary: roots r)
  case Nil
  then show ?case by auto
next
  case (Cons doc pending)
  show ?case
  proof (cases "doc \<in> set roots")
    case False
    then show ?thesis using Cons.IH [OF Cons.prems] by simp
  next
    case True
    let ?roots = "delete_imports D doc roots"
    have "\<exists>r' \<in> set ?roots. (r', d) \<in> (import_edges D)\<^sup>*"
    proof (cases "r \<in> set ?roots")
      case True
      with Cons.prems show ?thesis by blast
    next
      case False
      with Cons.prems(1) have "(doc, r) \<in> (import_edges D)\<^sup>+"
        by (simp add: set_delete_imports [OF assms])
      with Cons.prems(2) have "(doc, d) \<in> (import_edges D)\<^sup>*"
        by (meson rtrancl_trans trancl_into_rtrancl)
      moreover have "doc \<in> set ?roots"
        using True by (rule delete_imports_keeps_self)
      ultimately show ?thesis by blast
    qed
    then obtain r' where "r' \<in> set ?roots" "(r', d) \<in> (import_edges D)\<^sup>*" by blast
    then show ?thesis using Cons.IH [of r' ?roots] True by simp
  qed
qed

text \<open>
  C1. Root-set soundness. When the documents' transitive import query meets its contract,
  every document of the mapping is reachable over zero or more import edges from a member
  of the search roots that the constructor computes.
\<close>

theorem searchRoots_sound:
  assumes "transitive_contract D"
    and "(url, Document d) \<in> set results"
  shows "\<exists>r \<in> set (searchRoots_field (constructor D results)). (r, d) \<in> (import_edges D)\<^sup>*"
proof -
  have "d \<in> set (new_Set (documents_of results))"
    using assms(2) by (auto simp: set_new_Set set_documents_of)
  then show ?thesis
    using root_loop_sound [OF assms(1), of d "new_Set (documents_of results)" d]
    by (simp add: constructor_def searchRoots_def Let_def)
qed


lemma root_loop_acyclic:
  assumes "transitive_contract D"
    and loopfree: "\<And>d. d \<in> docs \<Longrightarrow> (d, d) \<notin> (import_edges D)\<^sup>+"
  shows "set pending \<subseteq> docs \<Longrightarrow> set roots = docs - (import_edges D)\<^sup>+ `` P \<Longrightarrow>
     set (root_loop D pending roots) = docs - (import_edges D)\<^sup>+ `` (P \<union> set pending)"
proof (induction pending arbitrary: roots P)
  case Nil
  then show ?case by simp
next
  case (Cons doc pending)
  let ?E = "import_edges D"
  let ?roots = "if doc \<in> set roots then delete_imports D doc roots else roots"
  have doc: "doc \<in> docs" using Cons.prems(1) by simp
  have "set ?roots = docs - ?E\<^sup>+ `` (insert doc P)"
  proof (cases "doc \<in> set roots")
    case True
    have "doc \<notin> ?E\<^sup>+ `` {doc}"
      using loopfree [OF doc] by simp
    then have "set (delete_imports D doc roots) = set roots - ?E\<^sup>+ `` {doc}"
      by (simp add: set_delete_imports [OF assms(1)])
    with True Cons.prems(2) show ?thesis by auto
  next
    case False
    with doc Cons.prems(2) obtain p where p: "p \<in> P" "(p, doc) \<in> ?E\<^sup>+" by auto
    have "?E\<^sup>+ `` {doc} \<subseteq> ?E\<^sup>+ `` P"
      using p by (auto intro: trancl_trans)
    with False Cons.prems(2) show ?thesis by auto
  qed
  moreover have "set pending \<subseteq> docs" using Cons.prems(1) by simp
  ultimately have "set (root_loop D pending ?roots)
      = docs - ?E\<^sup>+ `` (insert doc P \<union> set pending)"
    by (rule Cons.IH [rotated])
  then show ?case by (cases "doc \<in> set roots") simp_all
qed

lemma project_documents_closed:
  "a \<in> project_documents D results \<Longrightarrow> (a, b) \<in> import_edges D \<Longrightarrow>
     b \<in> project_documents D results"
  unfolding project_documents_def by (auto intro: rtrancl_into_rtrancl)

lemma documents_in_project:
  "d \<in> set (documents_of results) \<Longrightarrow> d \<in> project_documents D results"
  unfolding project_documents_def by auto

lemma trancl_in_project_graph:
  assumes "(a, b) \<in> (import_edges D)\<^sup>+" and "a \<in> project_documents D results"
  shows "(a, b) \<in> (project_graph D results)\<^sup>+ \<and> b \<in> project_documents D results"
  using assms
proof (induction rule: trancl_induct)
  case (base y)
  then have "y \<in> project_documents D results"
    using project_documents_closed by fast
  with base show ?case by (auto simp: project_graph_def)
next
  case (step y z)
  then have y: "(a, y) \<in> (project_graph D results)\<^sup>+" "y \<in> project_documents D results"
    by simp_all
  with step.hyps(2) have z: "z \<in> project_documents D results"
    using project_documents_closed by fast
  with y step.hyps(2) have "(y, z) \<in> project_graph D results"
    by (simp add: project_graph_def)
  with y(1) z show ?case by (auto intro: trancl_into_trancl)
qed

lemma acyclic_project_loopfree:
  assumes "acyclic (project_graph D results)" and "d \<in> set (documents_of results)"
  shows "(d, d) \<notin> (import_edges D)\<^sup>+"
proof
  assume "(d, d) \<in> (import_edges D)\<^sup>+"
  then have "(d, d) \<in> (project_graph D results)\<^sup>+"
    using trancl_in_project_graph documents_in_project [OF assms(2)] by fast
  with assms(1) show False by (simp add: acyclic_def)
qed

lemma searchRoots_acyclic:
  assumes "transitive_contract D" and "acyclic (project_graph D results)"
  shows "set (searchRoots D results)
     = set (documents_of results) - (import_edges D)\<^sup>+ `` set (documents_of results)"
proof -
  have "set (root_loop D (new_Set (documents_of results)) (new_Set (documents_of results)))
      = set (documents_of results)
        - (import_edges D)\<^sup>+ `` ({} \<union> set (new_Set (documents_of results)))"
  proof (rule root_loop_acyclic [OF assms(1)])
    show "\<And>d. d \<in> set (documents_of results) \<Longrightarrow> (d, d) \<notin> (import_edges D)\<^sup>+"
      using acyclic_project_loopfree [OF assms(2)] .
  qed (simp_all add: set_new_Set)
  then show ?thesis
    by (simp add: searchRoots_def Let_def set_new_Set)
qed

lemma project_graph_cong:
  "set (documents_of results1) = set (documents_of results2) \<Longrightarrow>
     project_graph D results1 = project_graph D results2"
  by (simp add: project_graph_def project_documents_def)

lemma root_loop_visited_deletes:
  assumes "transitive_contract D"
  shows "r \<in> set pending \<Longrightarrow> r \<in> set (root_loop D pending roots) \<Longrightarrow>
     (r, t) \<in> (import_edges D)\<^sup>+ \<Longrightarrow> t \<noteq> r \<Longrightarrow> t \<notin> set (root_loop D pending roots)"
proof (induction pending arbitrary: roots)
  case Nil
  then show ?case by simp
next
  case (Cons doc pending)
  let ?roots = "delete_imports D doc roots"
  show ?case
  proof (cases "doc \<in> set roots")
    case True
    then have result: "root_loop D (doc # pending) roots = root_loop D pending ?roots"
      by simp
    show ?thesis
    proof (cases "r = doc")
      case True
      with Cons.prems(3,4) have "t \<notin> set ?roots"
        by (simp add: set_delete_imports [OF assms])
      then show ?thesis
        using set_root_loop_subset [of D pending ?roots] result by auto
    next
      case False
      with Cons.prems(1) have "r \<in> set pending" by simp
      then show ?thesis
        using Cons.IH [of ?roots] Cons.prems(2,3,4) result by simp
    qed
  next
    case False
    then have result: "root_loop D (doc # pending) roots = root_loop D pending roots"
      by simp
    have "r \<in> set roots"
      using Cons.prems(2) set_root_loop_subset [of D "doc # pending" roots] by auto
    with False have "r \<noteq> doc" by auto
    with Cons.prems(1) have "r \<in> set pending" by simp
    then show ?thesis
      using Cons.IH [of roots] Cons.prems(2,3,4) result by simp
  qed
qed

lemma searchRoots_antichain:
  assumes "transitive_contract D"
    and "r \<in> set (searchRoots D results)" and "r' \<in> set (searchRoots D results)"
    and "(r', r) \<in> (import_edges D)\<^sup>*"
  shows "r' = r"
proof (rule ccontr)
  assume "r' \<noteq> r"
  with assms(4) have reach: "(r', r) \<in> (import_edges D)\<^sup>+"
    by (auto dest: rtranclD)
  let ?docs = "new_Set (documents_of results)"
  have roots: "searchRoots D results = root_loop D ?docs ?docs"
    by (simp add: searchRoots_def Let_def)
  have "r' \<in> set ?docs"
    using assms(3) set_root_loop_subset [of D ?docs ?docs] roots by auto
  then have "r \<notin> set (root_loop D ?docs ?docs)"
    using root_loop_visited_deletes [OF assms(1), of r' ?docs ?docs r] assms(3) reach \<open>r' \<noteq> r\<close> roots
    by auto
  with assms(2) roots show False by simp
qed

lemma searchRoots_cover:
  assumes "transitive_contract D" and "d \<in> set (documents_of results)"
  shows "\<exists>r \<in> set (searchRoots D results). (r, d) \<in> (import_edges D)\<^sup>*"
  using root_loop_sound [OF assms(1), of d "new_Set (documents_of results)" d] assms(2)
  by (simp add: searchRoots_def Let_def set_new_Set)

lemma searchRoots_match:
  assumes "transitive_contract D"
    and docs: "set (documents_of results1) = set (documents_of results2)"
    and x: "x \<in> set (searchRoots D results1)"
  shows "\<exists>y \<in> set (searchRoots D results2).
     (x, y) \<in> (import_edges D)\<^sup>* \<and> (y, x) \<in> (import_edges D)\<^sup>*"
proof -
  let ?E = "import_edges D"
  have "x \<in> set (documents_of results2)"
    using x searchRoots_subset [of D results1] docs by auto
  then obtain y where y: "y \<in> set (searchRoots D results2)" "(y, x) \<in> ?E\<^sup>*"
    using searchRoots_cover [OF assms(1)] by blast
  have "y \<in> set (documents_of results1)"
    using y(1) searchRoots_subset [of D results2] docs by auto
  then obtain x' where x': "x' \<in> set (searchRoots D results1)" "(x', y) \<in> ?E\<^sup>*"
    using searchRoots_cover [OF assms(1)] by blast
  from x'(2) y(2) have "(x', x) \<in> ?E\<^sup>*" by (rule rtrancl_trans)
  then have "x' = x"
    using searchRoots_antichain [OF assms(1) x x'(1)] by simp
  with x'(2) y show ?thesis by blast
qed

text \<open>
  C2, amended. For every project and every two insertion orders of its mapping, the two
  sets of search roots agree up to the choice of the document that stands for an import
  cycle: each root of one run is, in the other run, a root itself or replaced by a root
  that reaches it and is reached by it over import edges. When the import graph of the
  project is acyclic, the two sets are equal.
\<close>

theorem searchRoots_order_up_to_cycle:
  assumes "transitive_contract D" and "mset results1 = mset results2"
  shows "(\<forall>r1 \<in> set (searchRoots_field (constructor D results1)).
            \<exists>r2 \<in> set (searchRoots_field (constructor D results2)).
              (r1, r2) \<in> (import_edges D)\<^sup>* \<and> (r2, r1) \<in> (import_edges D)\<^sup>*)
       \<and> (\<forall>r2 \<in> set (searchRoots_field (constructor D results2)).
            \<exists>r1 \<in> set (searchRoots_field (constructor D results1)).
              (r2, r1) \<in> (import_edges D)\<^sup>* \<and> (r1, r2) \<in> (import_edges D)\<^sup>*)
       \<and> (acyclic (project_graph D results1) \<longrightarrow>
            set (searchRoots_field (constructor D results1))
              = set (searchRoots_field (constructor D results2)))"
proof -
  have "set results1 = set results2"
    using assms(2) by (rule mset_eq_setD)
  then have docs: "set (documents_of results1) = set (documents_of results2)"
    by (simp add: set_documents_of)
  have fwd: "\<forall>r1 \<in> set (searchRoots D results1). \<exists>r2 \<in> set (searchRoots D results2).
      (r1, r2) \<in> (import_edges D)\<^sup>* \<and> (r2, r1) \<in> (import_edges D)\<^sup>*"
    using searchRoots_match [OF assms(1) docs] by blast
  have bwd: "\<forall>r2 \<in> set (searchRoots D results2). \<exists>r1 \<in> set (searchRoots D results1).
      (r2, r1) \<in> (import_edges D)\<^sup>* \<and> (r1, r2) \<in> (import_edges D)\<^sup>*"
    using searchRoots_match [OF assms(1) docs [symmetric]] by blast
  have same: "set (searchRoots D results1) = set (searchRoots D results2)"
    if acyc: "acyclic (project_graph D results1)"
  proof -
    have "acyclic (project_graph D results2)"
      using acyc project_graph_cong [OF docs, of D] by simp
    with acyc docs show ?thesis
      by (simp add: searchRoots_acyclic [OF assms(1)])
  qed
  from fwd bwd same show ?thesis
    by (simp add: constructor_def)
qed

text \<open>
  C3. Root-set minimality. For a project whose import graph is acyclic, the search roots
  are exactly the documents of the mapping with in-degree 0 in that graph: those that no
  other document of the project imports.
\<close>

theorem searchRoots_minimal_acyclic:
  assumes "transitive_contract D" and "acyclic (project_graph D results)"
  shows "set (searchRoots_field (constructor D results))
       = {d \<in> set (documents_of results).
            \<not> (\<exists>d'. d' \<noteq> d \<and> (d', d) \<in> project_graph D results)}"
proof -
  let ?E = "import_edges D"
  let ?G = "project_graph D results"
  let ?docs = "set (documents_of results)"
  have "?docs - ?E\<^sup>+ `` ?docs = {d \<in> ?docs. \<not> (\<exists>d'. d' \<noteq> d \<and> (d', d) \<in> ?G)}"
  proof (intro set_eqI iffI)
    fix d
    assume d: "d \<in> ?docs - ?E\<^sup>+ `` ?docs"
    have "\<not> (\<exists>d'. d' \<noteq> d \<and> (d', d) \<in> ?G)"
    proof
      assume "\<exists>d'. d' \<noteq> d \<and> (d', d) \<in> ?G"
      then obtain d' where "(d', d) \<in> ?E" "d' \<in> project_documents D results"
        by (auto simp: project_graph_def)
      then obtain p where "p \<in> ?docs" "(p, d') \<in> ?E\<^sup>*" "(d', d) \<in> ?E"
        by (auto simp: project_documents_def)
      then have "p \<in> ?docs" "(p, d) \<in> ?E\<^sup>+"
        by (auto intro: rtrancl_into_trancl1)
      with d show False by blast
    qed
    with d show "d \<in> {d \<in> ?docs. \<not> (\<exists>d'. d' \<noteq> d \<and> (d', d) \<in> ?G)}" by simp
  next
    fix d
    assume d: "d \<in> {d \<in> ?docs. \<not> (\<exists>d'. d' \<noteq> d \<and> (d', d) \<in> ?G)}"
    then have in_docs: "d \<in> ?docs" by simp
    have "d \<notin> ?E\<^sup>+ `` ?docs"
    proof
      assume "d \<in> ?E\<^sup>+ `` ?docs"
      then obtain p where p: "p \<in> ?docs" "(p, d) \<in> ?E\<^sup>+" by auto
      then obtain z where z: "(p, z) \<in> ?E\<^sup>*" "(z, d) \<in> ?E"
        by (auto dest: tranclD2)
      from p(1) z(1) have "z \<in> project_documents D results"
        by (auto simp: project_documents_def)
      with z(2) have edge: "(z, d) \<in> ?G"
        using documents_in_project [OF in_docs] by (simp add: project_graph_def)
      have "z \<noteq> d"
        using z(2) acyclic_project_loopfree [OF assms(2) in_docs] by auto
      with edge d show False by blast
    qed
    with in_docs show "d \<in> ?docs - ?E\<^sup>+ `` ?docs" by simp
  qed
  then show ?thesis
    by (simp add: constructor_def searchRoots_acyclic [OF assms])
qed

lemma root_loop_keeps:
  assumes "transitive_contract D"
  shows "F \<in> set roots \<Longrightarrow>
     (\<And>p. p \<in> set pending \<Longrightarrow> p \<in> set roots \<Longrightarrow> p = F \<or> (p, F) \<notin> (import_edges D)\<^sup>+) \<Longrightarrow>
     F \<in> set (root_loop D pending roots)"
proof (induction pending arbitrary: roots)
  case Nil
  then show ?case by simp
next
  case (Cons doc pending)
  show ?case
  proof (cases "doc \<in> set roots")
    case False
    then show ?thesis using Cons.IH [of roots] Cons.prems by simp
  next
    case True
    let ?roots = "delete_imports D doc roots"
    have sub: "set ?roots \<subseteq> set roots"
      by (simp add: set_delete_imports [OF assms])
    have "doc = F \<or> (doc, F) \<notin> (import_edges D)\<^sup>+"
      using Cons.prems(2) [of doc] True by simp
    then have "F \<in> set ?roots"
      using Cons.prems(1) by (auto simp: set_delete_imports [OF assms])
    moreover have "\<And>p. p \<in> set pending \<Longrightarrow> p \<in> set ?roots \<Longrightarrow>
        p = F \<or> (p, F) \<notin> (import_edges D)\<^sup>+"
      using Cons.prems(2) sub by auto
    ultimately have "F \<in> set (root_loop D pending ?roots)"
      by (rule Cons.IH)
    with True show ?thesis by simp
  qed
qed

lemma root_loop_cycle:
  assumes "transitive_contract D"
    and cycle: "\<And>a b. a \<in> C \<Longrightarrow> b \<in> C \<Longrightarrow> (a, b) \<in> (import_edges D)\<^sup>+"
  shows "C \<subseteq> set roots \<Longrightarrow> set pending \<inter> C \<noteq> {} \<Longrightarrow>
     (\<And>p c. p \<in> set pending \<Longrightarrow> p \<notin> C \<Longrightarrow> c \<in> C \<Longrightarrow> (p, c) \<notin> (import_edges D)\<^sup>+) \<Longrightarrow>
     \<exists>c \<in> C. c \<in> set (root_loop D pending roots)"
proof (induction pending arbitrary: roots)
  case Nil
  then show ?case by simp
next
  case (Cons doc pending)
  let ?E = "import_edges D"
  let ?roots = "delete_imports D doc roots"
  show ?case
  proof (cases "doc \<in> C")
    case True
    then have in_roots: "doc \<in> set roots" using Cons.prems(1) by auto
    then have "doc \<in> set ?roots" by (rule delete_imports_keeps_self)
    moreover have "p = doc \<or> (p, doc) \<notin> ?E\<^sup>+"
      if "p \<in> set pending" "p \<in> set ?roots" for p
    proof (cases "p \<in> C")
      case False
      then show ?thesis using Cons.prems(3) [of p doc] that(1) True by simp
    next
      case p: True
      have "p = doc"
      proof (rule ccontr)
        assume "p \<noteq> doc"
        moreover have "(doc, p) \<in> ?E\<^sup>+" using cycle True p by blast
        ultimately have "p \<notin> set ?roots"
          by (simp add: set_delete_imports [OF assms(1)])
        with that(2) show False by simp
      qed
      then show ?thesis by simp
    qed
    ultimately have "doc \<in> set (root_loop D pending ?roots)"
      by (rule root_loop_keeps [OF assms(1)])
    with True in_roots show ?thesis by auto
  next
    case False
    let ?next = "if doc \<in> set roots then ?roots else roots"
    have "C \<inter> ?E\<^sup>+ `` {doc} = {}"
      using Cons.prems(3) [of doc] False by auto
    then have "C \<subseteq> set ?next"
      using Cons.prems(1) by (auto simp: set_delete_imports [OF assms(1)])
    moreover have "set pending \<inter> C \<noteq> {}"
      using Cons.prems(2) False by auto
    moreover have "\<And>p c. p \<in> set pending \<Longrightarrow> p \<notin> C \<Longrightarrow> c \<in> C \<Longrightarrow> (p, c) \<notin> ?E\<^sup>+"
      using Cons.prems(3) by auto
    ultimately have "\<exists>c \<in> C. c \<in> set (root_loop D pending ?next)"
      by (rule Cons.IH)
    then show ?thesis by (cases "doc \<in> set roots") simp_all
  qed
qed

text \<open>
  C4, amended. Let \<open>C\<close> be an import cycle among the documents of the mapping (each of
  its documents reaches each of them over one or more import edges) that no document of
  the mapping outside \<open>C\<close> imports, directly or through other documents. Then a document
  of \<open>C\<close> remains a search root. An import whose target is the visited document itself
  deletes nothing, and the visited document survives its own visit.
\<close>

theorem searchRoots_cycle_survival:
  assumes "transitive_contract D"
    and "C \<noteq> {}" and "C \<subseteq> set (documents_of results)"
    and "\<forall>a \<in> C. \<forall>b \<in> C. (a, b) \<in> (import_edges D)\<^sup>+"
    and "\<forall>p \<in> set (documents_of results) - C. \<forall>c \<in> C. (p, c) \<notin> (import_edges D)\<^sup>+"
  shows "(\<exists>c \<in> C. c \<in> set (searchRoots_field (constructor D results)))
     \<and> (\<forall>doc imprt roots. feature_document D imprt = Some doc \<longrightarrow>
           delete_import D doc imprt roots = roots)
     \<and> (\<forall>doc roots. doc \<in> set roots \<longrightarrow> doc \<in> set (delete_imports D doc roots))"
proof -
  let ?docs = "new_Set (documents_of results)"
  have "\<exists>c \<in> C. c \<in> set (root_loop D ?docs ?docs)"
  proof (rule root_loop_cycle [OF assms(1)])
    show "\<And>a b. a \<in> C \<Longrightarrow> b \<in> C \<Longrightarrow> (a, b) \<in> (import_edges D)\<^sup>+"
      using assms(4) by blast
    show "C \<subseteq> set ?docs" using assms(3) by (simp add: set_new_Set)
    show "set ?docs \<inter> C \<noteq> {}" using assms(2,3) by (auto simp: set_new_Set)
    show "\<And>p c. p \<in> set ?docs \<Longrightarrow> p \<notin> C \<Longrightarrow> c \<in> C \<Longrightarrow> (p, c) \<notin> (import_edges D)\<^sup>+"
      using assms(5) by (auto simp: set_new_Set)
  qed
  then have "\<exists>c \<in> C. c \<in> set (searchRoots_field (constructor D results))"
    by (simp add: constructor_def searchRoots_def Let_def)
  moreover have "\<forall>doc imprt roots. feature_document D imprt = Some doc \<longrightarrow>
      delete_import D doc imprt roots = roots"
    by (simp add: delete_import_def)
  moreover have "\<forall>doc roots. doc \<in> set roots \<longrightarrow> doc \<in> set (delete_imports D doc roots)"
    by (simp add: delete_imports_keeps_self)
  ultimately show ?thesis by blast
qed


lemma import_edges_graph_api:
  "import_edges (graph_api own closure) = {(a, b). b \<in> set (own a)}"
  by (auto simp: import_edges_def own_imports_def graph_api_def)

lemma contract_graph_api:
  "transitive_contract (graph_api own closure) \<longleftrightarrow>
     (\<forall>d. set (closure d)
            = (\<Union>a \<in> {(a, b). b \<in> set (own a)}\<^sup>* `` {d}. Pair a ` set (own a)))"
  unfolding transitive_contract_def import_edges_graph_api
  by (simp add: own_imports_def graph_api_def)

lemma contract_graph_apiI:
  assumes own: "\<And>d. Pair d ` set (own d) \<subseteq> set (closure d)"
    and step: "\<And>d t. t \<in> set (own d) \<Longrightarrow> set (closure t) \<subseteq> set (closure d)"
    and sound: "\<And>d a b. (a, b) \<in> set (closure d) \<Longrightarrow>
        b \<in> set (own a) \<and> (d, a) \<in> {(a, b). b \<in> set (own a)}\<^sup>*"
  shows "transitive_contract (graph_api own closure)"
proof -
  let ?E = "{(a, b). b \<in> set (own a)}"
  have up: "Pair a ` set (own a) \<subseteq> set (closure d)" if "(d, a) \<in> ?E\<^sup>*" for d a
    using that
  proof (induction rule: converse_rtrancl_induct)
    case base
    show ?case by (rule own)
  next
    case (step y z)
    then show ?case using assms(2) [of z y] by auto
  qed
  have "set (closure d) = (\<Union>a \<in> ?E\<^sup>* `` {d}. Pair a ` set (own a))" for d
  proof (intro set_eqI iffI)
    fix f
    assume f: "f \<in> set (closure d)"
    obtain a b where ab: "f = (a, b)" by (cases f)
    with f sound [of a b d] show "f \<in> (\<Union>a \<in> ?E\<^sup>* `` {d}. Pair a ` set (own a))"
      by auto
  next
    fix f
    assume "f \<in> (\<Union>a \<in> ?E\<^sup>* `` {d}. Pair a ` set (own a))"
    then show "f \<in> set (closure d)" using up by blast
  qed
  then show ?thesis by (simp add: contract_graph_api)
qed

lemma rooted_cycle_edges: "import_edges rooted_cycle_api = {(0, 1), (1, 2), (2, 1)}"
  unfolding rooted_cycle_api_def import_edges_graph_api by (auto split: if_splits)

lemma rooted_cycle_contract: "transitive_contract rooted_cycle_api"
  unfolding rooted_cycle_api_def
proof (rule contract_graph_apiI)
  let ?own = "\<lambda>d::nat. if d = 0 then [1] else if d = 1 then [2] else if d = 2 then [1::nat] else []"
  let ?E = "{(a, b). b \<in> set (?own a)}"
  have e01: "(0, 1) \<in> ?E" and e12: "(1, 2) \<in> ?E" and e21: "(2, 1) \<in> ?E"
    by simp_all
  have r01: "(0, 1) \<in> ?E\<^sup>*" using e01 by (rule r_into_rtrancl)
  have r12: "(1, 2) \<in> ?E\<^sup>*" using e12 by (rule r_into_rtrancl)
  have r21: "(2, 1) \<in> ?E\<^sup>*" using e21 by (rule r_into_rtrancl)
  have r02: "(0, 2) \<in> ?E\<^sup>*" using r01 e12 by (rule rtrancl_into_rtrancl)
  show "\<And>d a b. (a, b) \<in> set (if d = 0 then [(0, 1), (1, 2), (2, 1)]
            else if d = 1 then [(1, 2), (2, 1)]
            else if d = 2 then [(2, 1), (1, 2)] else []) \<Longrightarrow>
        b \<in> set (?own a) \<and> (d, a) \<in> ?E\<^sup>*"
    using r01 r12 r21 r02 by (auto split: if_splits)
qed (auto split: if_splits)


lemma cycle_edges: "import_edges cycle_api = {(0, 1), (1, 0)}"
  unfolding cycle_api_def import_edges_graph_api by (auto split: if_splits)

lemma cycle_contract: "transitive_contract cycle_api"
  unfolding cycle_api_def
proof (rule contract_graph_apiI)
  let ?own = "\<lambda>d::nat. if d = 0 then [1] else if d = 1 then [0::nat] else []"
  let ?E = "{(a, b). b \<in> set (?own a)}"
  have e01: "(0, 1) \<in> ?E" and e10: "(1, 0) \<in> ?E"
    by simp_all
  have r01: "(0, 1) \<in> ?E\<^sup>*" using e01 by (rule r_into_rtrancl)
  have r10: "(1, 0) \<in> ?E\<^sup>*" using e10 by (rule r_into_rtrancl)
  show "\<And>d a b. (a, b) \<in> set (if d = 0 then [(0, 1), (1, 0)]
            else if d = 1 then [(1, 0), (0, 1)] else []) \<Longrightarrow>
        b \<in> set (?own a) \<and> (d, a) \<in> ?E\<^sup>*"
    using r01 r10 by (auto split: if_splits)
qed (auto split: if_splits)

lemma dag_edges: "import_edges dag_api = {(0, 1), (0, 2), (1, 2)}"
  unfolding dag_api_def import_edges_graph_api by (auto split: if_splits)

lemma dag_contract: "transitive_contract dag_api"
  unfolding dag_api_def
proof (rule contract_graph_apiI)
  let ?own = "\<lambda>d::nat. if d = 0 then [1, 2] else if d = 1 then [2::nat] else []"
  let ?E = "{(a, b). b \<in> set (?own a)}"
  have e01: "(0, 1) \<in> ?E"
    by simp
  have r01: "(0, 1) \<in> ?E\<^sup>*" using e01 by (rule r_into_rtrancl)
  show "\<And>d a b. (a, b) \<in> set (if d = 0 then [(0, 1), (0, 2), (1, 2)]
            else if d = 1 then [(1, 2)] else []) \<Longrightarrow>
        b \<in> set (?own a) \<and> (d, a) \<in> ?E\<^sup>*"
    using r01 by (auto split: if_splits)
qed (auto split: if_splits)

lemma dag_acyclic: "acyclic (project_graph dag_api results)"
proof (rule acyclic_subset)
  show "acyclic less_than" by (rule wf_acyclic) (rule wf_less_than)
  show "project_graph dag_api results \<subseteq> less_than"
    by (auto simp: project_graph_def dag_edges)
qed

lemmas example_simps =
  searchRoots_def constructor_def documents_of_def values_of_def new_Set_def set_add_def
  delete_imports_def delete_import_def set_delete_def graph_api_def

lemma rooted_cycle_roots:
  "searchRoots_field (constructor rooted_cycle_api three_documents) = [0]"
  by (simp add: example_simps rooted_cycle_api_def three_documents_def)

lemma cycle_roots:
  "searchRoots_field (constructor cycle_api two_documents) = [0]"
  by (simp add: example_simps cycle_api_def two_documents_def)

lemma cycle_roots_reordered:
  "searchRoots_field (constructor cycle_api two_documents_reordered) = [1]"
  by (simp add: example_simps cycle_api_def two_documents_reordered_def)

lemma dag_roots:
  "searchRoots_field (constructor dag_api three_documents) = [0]"
  by (simp add: example_simps dag_api_def three_documents_def)

lemma dag_roots_reordered:
  "searchRoots_field (constructor dag_api three_documents_reordered) = [0]"
  by (simp add: example_simps dag_api_def three_documents_reordered_def)

lemma three_documents_set: "set (documents_of three_documents) = {0, 1, 2}"
  by (auto simp: documents_of_def values_of_def three_documents_def)

lemma two_documents_set: "set (documents_of two_documents) = {0, 1}"
  by (auto simp: documents_of_def values_of_def two_documents_def)

theorem searchRoots_sound_witness:
  "transitive_contract rooted_cycle_api
   \<and> (''b.html'', Document 2) \<in> set three_documents
   \<and> searchRoots_field (constructor rooted_cycle_api three_documents) = [0]
   \<and> (0, 2) \<in> (import_edges rooted_cycle_api)\<^sup>*"
  using searchRoots_sound [OF rooted_cycle_contract, of "''b.html''" 2 three_documents]
  by (simp add: rooted_cycle_contract rooted_cycle_roots) (simp add: three_documents_def)

text \<open>
  C2, as claimed, fails on a cycle: the loop walks the very set it deletes from, so a
  document that was deleted before its turn is never visited. For two documents that
  import each other, the one that comes first in the mapping stays and the other goes.
\<close>

theorem searchRoots_order_counterexample:
  "transitive_contract cycle_api
   \<and> mset two_documents = mset two_documents_reordered
   \<and> searchRoots_field (constructor cycle_api two_documents) = [0]
   \<and> searchRoots_field (constructor cycle_api two_documents_reordered) = [1]"
  by (simp add: cycle_contract cycle_roots cycle_roots_reordered)
    (simp add: two_documents_def two_documents_reordered_def)

theorem searchRoots_order_up_to_cycle_witness:
  "transitive_contract cycle_api
   \<and> mset two_documents = mset two_documents_reordered
   \<and> searchRoots_field (constructor cycle_api two_documents) = [0]
   \<and> searchRoots_field (constructor cycle_api two_documents_reordered) = [1]
   \<and> (0, 1) \<in> (import_edges cycle_api)\<^sup>* \<and> (1, 0) \<in> (import_edges cycle_api)\<^sup>*
   \<and> transitive_contract dag_api \<and> acyclic (project_graph dag_api three_documents)
   \<and> mset three_documents = mset three_documents_reordered
   \<and> set (searchRoots_field (constructor dag_api three_documents))
     = set (searchRoots_field (constructor dag_api three_documents_reordered))
   \<and> searchRoots_field (constructor dag_api three_documents) = [0]"
proof -
  have m2: "mset two_documents = mset two_documents_reordered"
    by (simp add: two_documents_def two_documents_reordered_def)
  have m3: "mset three_documents = mset three_documents_reordered"
    by (simp add: three_documents_def three_documents_reordered_def)
  show ?thesis
    using searchRoots_order_up_to_cycle [OF cycle_contract m2]
      searchRoots_order_up_to_cycle [OF dag_contract m3]
    by (simp add: cycle_contract m2 cycle_roots cycle_roots_reordered
        dag_contract dag_acyclic m3 dag_roots)
qed

theorem searchRoots_minimal_acyclic_witness:
  "transitive_contract dag_api \<and> acyclic (project_graph dag_api three_documents)
   \<and> set (searchRoots_field (constructor dag_api three_documents)) = {0}
   \<and> {d \<in> set (documents_of three_documents).
        \<not> (\<exists>d'. d' \<noteq> d \<and> (d', d) \<in> project_graph dag_api three_documents)}
     = {0}"
  using searchRoots_minimal_acyclic [OF dag_contract dag_acyclic, of three_documents]
  by (simp add: dag_contract dag_acyclic dag_roots)

text \<open>
  C4, as claimed, fails for a cycle that a document outside it imports: document 0
  imports document 1, documents 1 and 2 import each other, and document 0 is the only
  search root. Neither document of the cycle remains.
\<close>

theorem searchRoots_cycle_counterexample:
  "transitive_contract rooted_cycle_api
   \<and> (1, 2) \<in> import_edges rooted_cycle_api \<and> (2, 1) \<in> import_edges rooted_cycle_api
   \<and> set (documents_of three_documents) = {0, 1, 2}
   \<and> searchRoots_field (constructor rooted_cycle_api three_documents) = [0]"
  by (simp add: rooted_cycle_contract rooted_cycle_roots rooted_cycle_edges three_documents_set)

theorem searchRoots_cycle_survival_witness:
  "transitive_contract cycle_api
   \<and> {0, 1} \<subseteq> set (documents_of two_documents)
   \<and> (0, 1) \<in> import_edges cycle_api \<and> (1, 0) \<in> import_edges cycle_api
   \<and> set (documents_of two_documents) - {0, 1} = {}
   \<and> (\<exists>c \<in> {0, 1}. c \<in> set (searchRoots_field (constructor cycle_api two_documents)))
   \<and> searchRoots_field (constructor cycle_api two_documents) = [0]"
proof -
  let ?E = "import_edges cycle_api"
  have e: "(0, 1) \<in> ?E" "(1, 0) \<in> ?E"
    by (simp_all add: cycle_edges)
  have t01: "(0, 1) \<in> ?E\<^sup>+" using e(1) by (rule r_into_trancl)
  have t10: "(1, 0) \<in> ?E\<^sup>+" using e(2) by (rule r_into_trancl)
  have t00: "(0, 0) \<in> ?E\<^sup>+" using t01 t10 by (rule trancl_trans)
  have t11: "(1, 1) \<in> ?E\<^sup>+" using t10 t01 by (rule trancl_trans)
  have cyc: "\<forall>a \<in> {0, 1}. \<forall>b \<in> {0, 1}. (a, b) \<in> ?E\<^sup>+"
    using t01 t10 t00 t11 by simp
  have iso: "\<forall>p \<in> set (documents_of two_documents) - {0, 1}. \<forall>c \<in> {0, 1}. (p, c) \<notin> ?E\<^sup>+"
    by (simp add: two_documents_set)
  have sub: "{0, 1} \<subseteq> set (documents_of two_documents)"
    by (simp add: two_documents_set)
  have ne: "{0::nat, 1} \<noteq> {}" by simp
  show ?thesis
    using searchRoots_cycle_survival [OF cycle_contract ne sub cyc iso] e
    by (simp add: cycle_contract two_documents_set cycle_roots)
qed

end
